theory Spec2Isabelle
  imports Complex_Main
begin

section \<open>The size/offset cache of src/core/cache.ts\<close>

text \<open>
  Numbers. A TypeScript \<open>number\<close> that is used as an index or a length is an \<open>int\<close>;
  a size, an offset or a distance is a \<open>real\<close> (the rounding of IEEE doubles is not
  modelled; every sum below is taken in the order in which the code adds).

  Arrays. \<open>_sizes\<close> and \<open>_offsets\<close> are lists. An element access \<open>arr[i]\<close> outside
  \<open>0 \<le> i < arr.length\<close> makes JavaScript produce \<open>undefined\<close> (and \<open>NaN\<close> in the
  arithmetic that follows) or a sparse array. Such a call is outside the contract of the
  module, and the model answers \<open>None\<close> for it: an operation returns \<open>Some\<close> exactly when
  every element access it makes is inside the array.
\<close>

definition UNCACHED :: real where
  "UNCACHED = - 1"

record cache =
  defaultItemSize :: real
  length_c :: int
  sizes :: "real list"
  measuredOffsetIndex :: int
  offsets :: "real list"

text \<open>\<open>arr[i]\<close> as a read and \<open>arr[i] = v\<close> as a write.\<close>

definition js_get :: "real list \<Rightarrow> int \<Rightarrow> real option" where
  "js_get arr i = (if 0 \<le> i \<and> i < int (length arr) then Some (arr ! nat i) else None)"

definition js_set :: "real list \<Rightarrow> int \<Rightarrow> real \<Rightarrow> real list option" where
  "js_set arr i v = (if 0 \<le> i \<and> i < int (length arr) then Some (arr[nat i := v]) else None)"

text \<open>
  Modelled from the spec: \<open>clamp\<close> is imported from \<open>./utils\<close>, which is not among the
  sources; the spec says that a value is "clamped to" the interval between the two bounds.
  The arguments are in the order of the calls: the value, the lower bound, the upper bound.
  The function \<open>min\<close>, imported from the same file, is the minimum of two numbers.
\<close>

definition clamp :: "int \<Rightarrow> int \<Rightarrow> int \<Rightarrow> int" where
  "clamp v minValue maxValue = min maxValue (max minValue v)"

text \<open>
  Modelled from the spec: \<open>median\<close> is imported from \<open>./utils\<close>, which is not among the
  sources; the spec calls it "the median of measured sizes". It is the middle element of
  the sorted list, and the mean of the two middle elements when the length is even.
\<close>

definition median :: "real list \<Rightarrow> real" where
  "median arr =
     (let s = sort arr; mid = length arr div 2
      in if even (length s) then (s ! (mid - 1) + s ! mid) / 2 else s ! mid)"

subsection \<open>Measurement store\<close>

definition getItemSize :: "cache \<Rightarrow> int \<Rightarrow> real option" where
  "getItemSize c index =
     (case js_get (sizes c) index of
        None \<Rightarrow> None
      | Some sz \<Rightarrow> Some (if sz = UNCACHED then defaultItemSize c else sz))"

definition setItemSize :: "cache \<Rightarrow> int \<Rightarrow> real \<Rightarrow> (cache \<times> bool) option" where
  "setItemSize c index sz =
     (case js_get (sizes c) index of
        None \<Rightarrow> None
      | Some old \<Rightarrow>
          (let isInitialMeasurement = (old = UNCACHED) in
           case js_set (sizes c) index sz of
             None \<Rightarrow> None
           | Some ss \<Rightarrow>
               Some (c\<lparr>sizes := ss,
                        measuredOffsetIndex := min index (measuredOffsetIndex c)\<rparr>,
                     isInitialMeasurement)))"

definition estimateDefaultItemSize :: "cache \<Rightarrow> cache option" where
  "estimateDefaultItemSize c =
     (let measuredSizes = filter (\<lambda>s. s \<noteq> UNCACHED) (sizes c) in
      case measuredSizes of
        [] \<Rightarrow> None
      | startItemSize # _ \<Rightarrow>
          Some (c\<lparr>defaultItemSize :=
                    (if list_all (\<lambda>s. s = startItemSize) measuredSizes
                     then startItemSize
                     else median measuredSizes)\<rparr>))"

subsection \<open>Offset and range engine\<close>

text \<open>
  The \<open>while (i < index)\<close> loop of \<open>computeOffset\<close>; \<open>i\<close> and \<open>tp\<close> (the source's
  \<open>top\<close>) are its variables.
\<close>

function computeOffset_loop :: "cache \<Rightarrow> int \<Rightarrow> int \<Rightarrow> real \<Rightarrow> (cache \<times> real) option" where
  "computeOffset_loop c index i tp =
     (if i < index then
        (case getItemSize c i of
           None \<Rightarrow> None
         | Some h \<Rightarrow>
             (case js_set (offsets c) (i + 1) (tp + h) of
                None \<Rightarrow> None
              | Some os \<Rightarrow> computeOffset_loop (c\<lparr>offsets := os\<rparr>) index (i + 1) (tp + h)))
      else Some (c, tp))"
  by pat_completeness auto
termination
  by (relation "measure (\<lambda>(c, index, i, tp). nat (index - i))") auto

declare computeOffset_loop.simps [simp del]

definition computeOffset :: "cache \<Rightarrow> int \<Rightarrow> (cache \<times> real) option" where
  "computeOffset c index =
     (if length_c c = 0 then Some (c, 0)
      else if measuredOffsetIndex c \<ge> index then
        (case js_get (offsets c) index of None \<Rightarrow> None | Some v \<Rightarrow> Some (c, v))
      else
        (let i = measuredOffsetIndex c in
         case js_get (offsets c) i of
           None \<Rightarrow> None
         | Some tp \<Rightarrow>
             (case computeOffset_loop c index i tp of
                None \<Rightarrow> None
              | Some (c', tp') \<Rightarrow> Some (c'\<lparr>measuredOffsetIndex := index\<rparr>, tp'))))"

definition computeTotalSize :: "cache \<Rightarrow> (cache \<times> real) option" where
  "computeTotalSize c =
     (if length_c c = 0 then Some (c, 0)
      else
        (case computeOffset c (length_c c - 1) of
           None \<Rightarrow> None
         | Some (c', off) \<Rightarrow>
             (case getItemSize c' (length_c c' - 1) of
                None \<Rightarrow> None
              | Some h \<Rightarrow> Some (c', off + h))))"

text \<open>
  The two scans of \<open>findIndex\<close>. Each returns the value of \<open>i\<close> when its loop ends
  (\<open>sm\<close> is the source's \<open>sum\<close>) and,
  as a ghost result, the list of the indices whose size the scan has read (the argument
  of each \<open>getItemSize\<close> call, in order).
\<close>

function findIndex_forward :: "cache \<Rightarrow> int \<Rightarrow> real \<Rightarrow> real \<Rightarrow> (int \<times> int list) option" where
  "findIndex_forward c i sm distance =
     (if i < length_c c - 1 then
        (case getItemSize c i of
           None \<Rightarrow> None
         | Some h \<Rightarrow>
             (let i' = i + 1; sm' = sm + h in
              if sm' \<ge> distance then
                Some (if sm' - h / 2 \<ge> distance then i' - 1 else i', [i])
              else
                map_option (\<lambda>(r, reads). (r, i # reads))
                  (findIndex_forward c i' sm' distance)))
      else Some (i, []))"
  by pat_completeness auto
termination
  by (relation "measure (\<lambda>(c, i, sm, distance). nat (length_c c - 1 - i))") auto

declare findIndex_forward.simps [simp del]

function findIndex_backward :: "cache \<Rightarrow> int \<Rightarrow> real \<Rightarrow> real \<Rightarrow> (int \<times> int list) option" where
  "findIndex_backward c i sm distance =
     (if i > 0 then
        (let i' = i - 1 in
         case getItemSize c i' of
           None \<Rightarrow> None
         | Some h \<Rightarrow>
             (let sm' = sm - h in
              if sm' \<le> distance then
                Some (if sm' + h / 2 < distance then i' + 1 else i', [i'])
              else
                map_option (\<lambda>(r, reads). (r, i' # reads))
                  (findIndex_backward c i' sm' distance)))
      else Some (i, []))"
  by pat_completeness auto
termination
  by (relation "measure (\<lambda>(c, i, sm, distance). nat i)") auto

declare findIndex_backward.simps [simp del]

definition findIndex_scan :: "cache \<Rightarrow> int \<Rightarrow> real \<Rightarrow> (int \<times> int list) option" where
  "findIndex_scan c i distance =
     (if distance \<ge> 0 then findIndex_forward c i 0 distance
      else findIndex_backward c i 0 distance)"

definition findIndex :: "cache \<Rightarrow> int \<Rightarrow> real \<Rightarrow> int option" where
  "findIndex c i distance =
     map_option (\<lambda>(i', reads). clamp i' 0 (length_c c - 1)) (findIndex_scan c i distance)"

definition findStartIndexWithOffset :: "cache \<Rightarrow> real \<Rightarrow> int \<Rightarrow> (cache \<times> int) option" where
  "findStartIndexWithOffset c offset initialIndex =
     (case computeOffset c initialIndex of
        None \<Rightarrow> None
      | Some (c', off) \<Rightarrow>
          (case findIndex c' initialIndex (offset - off) of
             None \<Rightarrow> None
           | Some start \<Rightarrow> Some (c', start)))"

definition computeRange :: "cache \<Rightarrow> real \<Rightarrow> int \<Rightarrow> real \<Rightarrow> (cache \<times> int \<times> int) option" where
  "computeRange c scrollOffset prevStartIndex viewportSize =
     (case findStartIndexWithOffset c scrollOffset (min prevStartIndex (length_c c - 1)) of
        None \<Rightarrow> None
      | Some (c', start) \<Rightarrow>
          (case findIndex c' start viewportSize of
             None \<Rightarrow> None
           | Some end_i \<Rightarrow> Some (c', start, end_i)))"

subsection \<open>Length mutator\<close>

text \<open>
  The \<open>for\<close> loop of \<open>appendCache\<close>, with its counter \<open>i\<close>: \<open>unshift\<close> puts the new
  size in front, \<open>push\<close> at the end; the new offset is always pushed at the end.
\<close>

function appendCache_loop :: "cache \<Rightarrow> int \<Rightarrow> bool \<Rightarrow> int \<Rightarrow> cache" where
  "appendCache_loop c len prepend i =
     (if i < len then
        appendCache_loop
          (c\<lparr>sizes := (if prepend then UNCACHED # sizes c else sizes c @ [UNCACHED]),
             offsets := offsets c @ [if i = 0 then 0 else UNCACHED]\<rparr>)
          len prepend (i + 1)
      else c)"
  by pat_completeness auto
termination
  by (relation "measure (\<lambda>(c, len, prepend, i). nat (len - i))") auto

declare appendCache_loop.simps [simp del]

definition appendCache :: "cache \<Rightarrow> int \<Rightarrow> bool \<Rightarrow> cache" where
  "appendCache c len prepend = (appendCache_loop c len prepend (length_c c))\<lparr>length_c := len\<rparr>"

definition initCache :: "int \<Rightarrow> real \<Rightarrow> cache" where
  "initCache len itemSize =
     appendCache
       \<lparr>defaultItemSize = itemSize, length_c = 0, sizes = [],
        measuredOffsetIndex = 0, offsets = []\<rparr>
       len False"

text \<open>
  \<open>arr.splice(0, n)\<close> removes and returns the first \<open>n\<close> elements; \<open>arr.splice(d)\<close> with
  \<open>d < 0\<close> removes and returns everything from position \<open>max (arr.length + d) 0\<close> on. Each
  function below gives the removed elements and the array that remains.
\<close>

definition splice_head :: "real list \<Rightarrow> int \<Rightarrow> real list \<times> real list" where
  "splice_head arr n = (take (nat n) arr, drop (nat n) arr)"

definition splice_tail :: "real list \<Rightarrow> int \<Rightarrow> real list \<times> real list" where
  "splice_tail arr d =
     (let start = nat (max (int (length arr) + d) 0) in (drop start arr, take start arr))"

definition updateCacheLength :: "cache \<Rightarrow> int \<Rightarrow> bool \<Rightarrow> cache \<times> real \<times> bool" where
  "updateCacheLength c len isShift =
     (let diff = len - length_c c;
          isRemove = diff < 0;
          (c1, shift) =
            (if isRemove then
               (let (removedItems, rest) =
                      (if isShift then splice_head (sizes c) (- diff)
                       else splice_tail (sizes c) diff);
                    shift = foldl (\<lambda>acc removed.
                              acc + (if removed = UNCACHED then defaultItemSize c else removed))
                              0 removedItems
                in (c\<lparr>sizes := rest, offsets := snd (splice_tail (offsets c) diff)\<rparr>, shift))
             else
               (appendCache c (length_c c + diff) isShift,
                defaultItemSize c * real_of_int diff))
      in (c1\<lparr>measuredOffsetIndex :=
                (if isShift then 0 else clamp (len - 1) 0 (measuredOffsetIndex c1)),
              length_c := len\<rparr>,
          shift, isRemove))"

section \<open>Specification vocabulary\<close>

text \<open>The size an item counts with: its measured size, or the default while unmeasured.\<close>

definition effectiveSize :: "cache \<Rightarrow> real \<Rightarrow> real" where
  "effectiveSize c s = (if s = UNCACHED then defaultItemSize c else s)"

text \<open>The offset of item \<open>n\<close> as the spec defines it: the effective sizes of the items before it.\<close>

definition prefixSum :: "cache \<Rightarrow> nat \<Rightarrow> real" where
  "prefixSum c n = sum_list (map (effectiveSize c) (take n (sizes c)))"

text \<open>
  The shape of a store (section 3 of the spec): both arrays have \<open>length\<close> entries, the
  watermark lies between \<open>0\<close> and \<open>max (length - 1) 0\<close>, and the first offset is \<open>0\<close>.
\<close>

definition well_formed :: "cache \<Rightarrow> bool" where
  "well_formed c \<longleftrightarrow>
     length_c c = int (length (sizes c)) \<and> length (offsets c) = length (sizes c) \<and>
     0 \<le> measuredOffsetIndex c \<and> measuredOffsetIndex c \<le> max (length_c c - 1) 0 \<and>
     list_all (\<lambda>v. v = 0) (take 1 (offsets c))"

text \<open>The cached offsets up to the watermark are the prefix sums of the effective sizes.\<close>

definition cached_ok :: "cache \<Rightarrow> bool" where
  "cached_ok c \<longleftrightarrow>
     list_all (\<lambda>k. offsets c ! k = prefixSum c k)
       [0 ..< min (nat (measuredOffsetIndex c) + 1) (length (offsets c))]"

text \<open>
  The states a caller can reach: it creates the store with a length that is not negative,
  and then calls the operations that change it, with any arguments for which every array
  access stays inside the arrays, and with new lengths that are not negative.
\<close>

inductive reachable :: "cache \<Rightarrow> bool" where
  r_init: "0 \<le> len \<Longrightarrow> reachable (initCache len itemSize)"
| r_setItemSize: "reachable c \<Longrightarrow> setItemSize c index sz = Some (c', b) \<Longrightarrow> reachable c'"
| r_computeOffset: "reachable c \<Longrightarrow> computeOffset c index = Some (c', v) \<Longrightarrow> reachable c'"
| r_computeTotalSize: "reachable c \<Longrightarrow> computeTotalSize c = Some (c', v) \<Longrightarrow> reachable c'"
| r_computeRange:
    "reachable c \<Longrightarrow> computeRange c scrollOffset prevStartIndex viewportSize = Some (c', r)
       \<Longrightarrow> reachable c'"
| r_updateCacheLength:
    "reachable c \<Longrightarrow> 0 \<le> len \<Longrightarrow> updateCacheLength c len isShift = (c', r) \<Longrightarrow> reachable c'"

text \<open>A run of offset queries, one after the other on the same store, with their results.\<close>

fun computeOffsets :: "cache \<Rightarrow> int list \<Rightarrow> (cache \<times> real list) option" where
  "computeOffsets c [] = Some (c, [])"
| "computeOffsets c (j # js) =
     (case computeOffset c j of
        None \<Rightarrow> None
      | Some (c1, v) \<Rightarrow>
          (case computeOffsets c1 js of
             None \<Rightarrow> None
           | Some (c2, vs) \<Rightarrow> Some (c2, v # vs)))"

section \<open>Effective sizes and the offset loop\<close>

lemma getItemSize_eff:
  "0 \<le> i \<Longrightarrow> i < int (length (sizes c)) \<Longrightarrow>
   getItemSize c i = Some (effectiveSize c (sizes c ! nat i))"
  by (simp add: getItemSize_def js_get_def effectiveSize_def)

lemma prefixSum_Suc:
  "n < length (sizes c) \<Longrightarrow>
   prefixSum c (Suc n) = prefixSum c n + effectiveSize c (sizes c ! n)"
  by (simp add: prefixSum_def take_Suc_conv_app_nth)

lemma prefixSum_0 [simp]: "prefixSum c 0 = 0"
  by (simp add: prefixSum_def)

lemma effectiveSize_cong:
  "defaultItemSize c' = defaultItemSize c \<Longrightarrow> effectiveSize c' = effectiveSize c"
  by (rule ext) (simp add: effectiveSize_def)

lemma prefixSum_cong:
  "sizes c' = sizes c \<Longrightarrow> defaultItemSize c' = defaultItemSize c \<Longrightarrow>
   prefixSum c' n = prefixSum c n"
  by (simp add: prefixSum_def effectiveSize_cong[of c' c])

lemma prefixSum_offsets_upd [simp]: "prefixSum (c\<lparr>offsets := os\<rparr>) n = prefixSum c n"
  by (rule prefixSum_cong) simp_all

lemma computeOffset_loop_prefix:
  assumes "length (offsets c) = length (sizes c)" "0 \<le> i" "i \<le> index"
    "index < int (length (sizes c))" "tp = prefixSum c (nat i)"
    "\<forall>k \<le> nat i. offsets c ! k = prefixSum c k"
  shows "\<exists>os. computeOffset_loop c index i tp = Some (c\<lparr>offsets := os\<rparr>, prefixSum c (nat index))
           \<and> length os = length (offsets c) \<and> (\<forall>k \<le> nat index. os ! k = prefixSum c k)"
  using assms
proof (induction c index i tp rule: computeOffset_loop.induct)
  case (1 c index i tp)
  show ?case
  proof (cases "i < index")
    case False
    with "1.prems" have "i = index" by simp
    with "1.prems" show ?thesis
      by (intro exI[of _ "offsets c"]) (simp add: computeOffset_loop.simps[of c index index])
  next
    case True
    let ?h = "effectiveSize c (sizes c ! nat i)"
    let ?os = "(offsets c)[nat (i + 1) := tp + ?h]"
    let ?c1 = "c\<lparr>offsets := ?os\<rparr>"
    have g: "getItemSize c i = Some ?h"
      using "1.prems" True by (simp add: getItemSize_eff)
    have s: "js_set (offsets c) (i + 1) (tp + ?h) = Some ?os"
      using "1.prems" True by (simp add: js_set_def)
    have nat_suc: "nat (i + 1) = Suc (nat i)"
      using "1.prems" by simp
    have tp1: "tp + ?h = prefixSum ?c1 (nat (i + 1))"
      using "1.prems" True by (simp add: nat_suc prefixSum_Suc)
    have cached: "\<forall>k \<le> nat (i + 1). offsets ?c1 ! k = prefixSum ?c1 k"
    proof (intro allI impI)
      fix k assume k: "k \<le> nat (i + 1)"
      show "offsets ?c1 ! k = prefixSum ?c1 k"
      proof (cases "k = nat (i + 1)")
        case True
        then show ?thesis using tp1 "1.prems" \<open>i < index\<close> by simp
      next
        case False
        with k have "k \<le> nat i" using nat_suc by simp
        then show ?thesis using "1.prems" False by simp
      qed
    qed
    have p1: "length (offsets ?c1) = length (sizes ?c1)"
      using "1.prems"(1) by simp
    have p2: "0 \<le> i + 1" "i + 1 \<le> index" "index < int (length (sizes ?c1))"
      using "1.prems"(2,4) True by simp_all
    have "\<exists>os. computeOffset_loop ?c1 index (i + 1) (tp + ?h)
              = Some (?c1\<lparr>offsets := os\<rparr>, prefixSum ?c1 (nat index))
            \<and> length os = length (offsets ?c1) \<and> (\<forall>k \<le> nat index. os ! k = prefixSum ?c1 k)"
      by (rule "1.IH"[OF True g s p1 p2 tp1 cached])
    then obtain os where
      os: "computeOffset_loop ?c1 index (i + 1) (tp + ?h)
              = Some (?c1\<lparr>offsets := os\<rparr>, prefixSum ?c1 (nat index))"
        "length os = length (offsets ?c1)" "\<forall>k \<le> nat index. os ! k = prefixSum ?c1 k"
      by blast
    have "computeOffset_loop c index i tp = computeOffset_loop ?c1 index (i + 1) (tp + ?h)"
      using True g s by (subst computeOffset_loop.simps) simp
    with os show ?thesis
      by (intro exI[of _ os]) simp
  qed
qed

lemma computeOffset_loop_done:
  "\<not> i < index \<Longrightarrow> computeOffset_loop c index i tp = Some (c, tp)"
  by (simp add: computeOffset_loop.simps[of c index i tp])

lemma computeOffset_loop_step:
  "i < index \<Longrightarrow> 0 \<le> i \<Longrightarrow> i + 1 < int (length (sizes c)) \<Longrightarrow>
   length (offsets c) = length (sizes c) \<Longrightarrow>
   computeOffset_loop c index i tp =
   computeOffset_loop
     (c\<lparr>offsets := (offsets c)[nat (i + 1) := tp + effectiveSize c (sizes c ! nat i)]\<rparr>)
     index (i + 1) (tp + effectiveSize c (sizes c ! nat i))"
  by (subst computeOffset_loop.simps) (simp add: getItemSize_eff js_set_def)

lemma computeOffset_loop_shape:
  assumes "length (offsets c) = length (sizes c)" "0 \<le> i" "i < index"
    "index < int (length (sizes c))"
  shows "\<exists>os. computeOffset_loop c index i tp = Some (c\<lparr>offsets := os\<rparr>, os ! nat index)
           \<and> length os = length (offsets c)"
  using assms
proof (induction c index i tp rule: computeOffset_loop.induct)
  case (1 c index i tp)
  let ?h = "effectiveSize c (sizes c ! nat i)"
  let ?os = "(offsets c)[nat (i + 1) := tp + ?h]"
  let ?c1 = "c\<lparr>offsets := ?os\<rparr>"
  have lt: "i < index" by (rule "1.prems"(3))
  have g: "getItemSize c i = Some ?h"
    using "1.prems" by (simp add: getItemSize_eff)
  have s: "js_set (offsets c) (i + 1) (tp + ?h) = Some ?os"
    using "1.prems" by (simp add: js_set_def)
  have step: "computeOffset_loop c index i tp = computeOffset_loop ?c1 index (i + 1) (tp + ?h)"
    using "1.prems" by (intro computeOffset_loop_step) simp_all
  show ?case
  proof (cases "i + 1 < index")
    case True
    have p1: "length (offsets ?c1) = length (sizes ?c1)"
      using "1.prems"(1) by simp
    have p2: "0 \<le> i + 1" "index < int (length (sizes ?c1))"
      using "1.prems"(2,4) by simp_all
    from "1.IH"[OF lt g s p1 p2(1) True p2(2)]
    obtain os where "computeOffset_loop ?c1 index (i + 1) (tp + ?h)
        = Some (?c1\<lparr>offsets := os\<rparr>, os ! nat index)" "length os = length (offsets ?c1)"
      by blast
    with step show ?thesis
      by (intro exI[of _ os]) simp
  next
    case False
    with lt have eq: "index = i + 1" by simp
    have "computeOffset_loop ?c1 index (i + 1) (tp + ?h) = Some (?c1, tp + ?h)"
      using eq by (simp add: computeOffset_loop_done)
    with step eq "1.prems" show ?thesis
      by (intro exI[of _ ?os]) simp
  qed
qed

lemma computeOffset_loop_Some_range:
  assumes "computeOffset_loop c index i tp = Some r"
    "length (offsets c) = length (sizes c)" "0 \<le> i" "i < index"
  shows "index < int (length (sizes c))"
  using assms
proof (induction c index i tp rule: computeOffset_loop.induct)
  case (1 c index i tp)
  have lt: "i < index" by (rule "1.prems"(4))
  from "1.prems"(1) lt obtain h os where
    g: "getItemSize c i = Some h" and s: "js_set (offsets c) (i + 1) (tp + h) = Some os"
    and rec: "computeOffset_loop (c\<lparr>offsets := os\<rparr>) index (i + 1) (tp + h) = Some r"
    by (subst (asm) computeOffset_loop.simps) (auto split: option.splits)
  from s have in_range: "i + 1 < int (length (offsets c))" and os: "os = (offsets c)[nat (i + 1) := tp + h]"
    by (auto simp: js_set_def split: if_splits)
  show ?case
  proof (cases "i + 1 < index")
    case True
    have "index < int (length (sizes (c\<lparr>offsets := os\<rparr>)))"
      using "1.prems"(2,3) os by (intro "1.IH"[OF lt g s rec _ _ True]) simp_all
    then show ?thesis by simp
  next
    case False
    with lt have "index = i + 1" by simp
    with in_range "1.prems"(2) show ?thesis by simp
  qed
qed

lemma list_all_take1:
  "list_all (\<lambda>v. v = 0) (take 1 xs) \<longleftrightarrow> (xs \<noteq> [] \<longrightarrow> xs ! 0 = (0::real))"
  by (cases xs) simp_all

lemma well_formed_iff:
  "well_formed c \<longleftrightarrow>
     length_c c = int (length (sizes c)) \<and> length (offsets c) = length (sizes c) \<and>
     0 \<le> measuredOffsetIndex c \<and> measuredOffsetIndex c \<le> max (length_c c - 1) 0 \<and>
     (offsets c \<noteq> [] \<longrightarrow> offsets c ! 0 = 0)"
  unfolding well_formed_def list_all_take1 ..

lemma cached_ok_iff:
  "cached_ok c \<longleftrightarrow>
   (\<forall>k. k \<le> nat (measuredOffsetIndex c) \<and> k < length (offsets c)
        \<longrightarrow> offsets c ! k = prefixSum c k)"
  by (auto simp: cached_ok_def list_all_iff)

lemma computeOffset_prefix:
  assumes "well_formed c" "cached_ok c" "0 \<le> index" "index < length_c c"
  shows "\<exists>c'. computeOffset c index = Some (c', prefixSum c (nat index)) \<and> well_formed c' \<and> cached_ok c'
           \<and> sizes c' = sizes c \<and> defaultItemSize c' = defaultItemSize c
           \<and> length_c c' = length_c c
           \<and> measuredOffsetIndex c' = max index (measuredOffsetIndex c)"
proof (cases "index \<le> measuredOffsetIndex c")
  case True
  have "length (offsets c) = length (sizes c)" "length_c c = int (length (sizes c))"
    using assms(1) by (simp_all add: well_formed_iff)
  then have "nat index \<le> nat (measuredOffsetIndex c)" "nat index < length (offsets c)"
    using assms(3,4) True by linarith+
  then have "offsets c ! nat index = prefixSum c (nat index)"
    using assms(2) by (simp add: cached_ok_iff)
  then have "js_get (offsets c) index = Some (prefixSum c (nat index))"
    using assms by (simp add: js_get_def well_formed_iff)
  then have "computeOffset c index = Some (c, prefixSum c (nat index))"
    using assms True by (simp add: computeOffset_def)
  with assms True show ?thesis
    by (intro exI[of _ c]) simp
next
  case False
  let ?m = "measuredOffsetIndex c"
  have len: "length_c c = int (length (sizes c))" "length (offsets c) = length (sizes c)"
    and m: "0 \<le> ?m" "?m < index"
    using assms False by (simp_all add: well_formed_iff)
  have cached: "\<forall>k \<le> nat ?m. offsets c ! k = prefixSum c k"
    using assms(2) m assms(4) len by (simp add: cached_ok_iff)
  have get: "js_get (offsets c) ?m = Some (prefixSum c (nat ?m))"
    using cached m assms(4) len by (simp add: js_get_def)
  have m_le: "?m \<le> index" using m by simp
  have idx: "index < int (length (sizes c))" using assms(4) len by simp
  from computeOffset_loop_prefix[OF len(2) m(1) m_le idx refl cached]
  obtain os where os:
    "computeOffset_loop c index ?m (prefixSum c (nat ?m))
       = Some (c\<lparr>offsets := os\<rparr>, prefixSum c (nat index))"
    "length os = length (offsets c)" "\<forall>k \<le> nat index. os ! k = prefixSum c k"
    by blast
  let ?c' = "c\<lparr>offsets := os, measuredOffsetIndex := index\<rparr>"
  have nonempty: "length_c c \<noteq> 0"
    using assms(3,4) by simp
  have res: "computeOffset c index = Some (?c', prefixSum c (nat index))"
    using nonempty False get os(1) by (simp add: computeOffset_def)
  have "os \<noteq> [] \<longrightarrow> os ! 0 = 0"
    using os(3) by simp
  then have well_formed': "well_formed ?c'"
    using len os(2) assms(3,4) by (auto simp: well_formed_iff)
  have pre: "\<And>k. prefixSum ?c' k = prefixSum c k"
    by (rule prefixSum_cong) simp_all
  have ok': "cached_ok ?c'"
    using os(3) by (simp add: cached_ok_iff pre)
  show ?thesis
    using res well_formed' ok' m by (intro exI[of _ ?c']) simp
qed

lemma computeOffset_preserves:
  assumes "computeOffset c index = Some (c', v)" "well_formed c" "cached_ok c"
  shows "well_formed c' \<and> cached_ok c' \<and> sizes c' = sizes c \<and> defaultItemSize c' = defaultItemSize c
           \<and> length_c c' = length_c c"
proof (cases "length_c c = 0 \<or> index \<le> measuredOffsetIndex c")
  case True
  with assms(1) have "c' = c"
    by (auto simp: computeOffset_def split: option.splits if_splits)
  with assms show ?thesis by simp
next
  case False
  let ?m = "measuredOffsetIndex c"
  have len: "length_c c = int (length (sizes c))" "length (offsets c) = length (sizes c)"
    and m: "0 \<le> ?m" "?m < index"
    using assms False by (simp_all add: well_formed_iff)
  from assms(1) False obtain tp r where "computeOffset_loop c index ?m tp = Some r"
    by (auto simp: computeOffset_def Let_def split: option.splits if_splits)
  from computeOffset_loop_Some_range[OF this len(2) m]
  have "index < length_c c" using len by simp
  moreover have "0 \<le> index" using m by simp
  ultimately show ?thesis
    using computeOffset_prefix[OF assms(2,3), of index] assms(1) by auto
qed

lemma prefixSum_take_cong:
  "take n (sizes c') = take n (sizes c) \<Longrightarrow> defaultItemSize c' = defaultItemSize c \<Longrightarrow>
   prefixSum c' n = prefixSum c n"
  by (simp add: prefixSum_def effectiveSize_cong[of c' c])

lemma setItemSize_Some:
  assumes "setItemSize c i v = Some (c', b)"
  shows "0 \<le> i \<and> i < int (length (sizes c)) \<and> b = (sizes c ! nat i = UNCACHED) \<and>
         c' = c\<lparr>sizes := (sizes c)[nat i := v],
                 measuredOffsetIndex := min i (measuredOffsetIndex c)\<rparr>"
  using assms
  by (auto simp: setItemSize_def js_get_def js_set_def split: if_splits)

lemma setItemSize_in_range:
  "0 \<le> i \<Longrightarrow> i < int (length (sizes c)) \<Longrightarrow>
   setItemSize c i v =
     Some (c\<lparr>sizes := (sizes c)[nat i := v],
              measuredOffsetIndex := min i (measuredOffsetIndex c)\<rparr>,
           sizes c ! nat i = UNCACHED)"
  by (simp add: setItemSize_def js_get_def js_set_def)

lemma setItemSize_keeps:
  fixes v :: real
  assumes "well_formed c" "cached_ok c" "0 \<le> i" "i < int (length (sizes c))"
  defines "c' \<equiv> c\<lparr>sizes := (sizes c)[nat i := v],
                    measuredOffsetIndex := min i (measuredOffsetIndex c)\<rparr>"
  shows "well_formed c' \<and> cached_ok c'"
proof
  show "well_formed c'"
    using assms(1,3,4) by (auto simp: well_formed_iff c'_def)
  have pre: "prefixSum c' k = prefixSum c k" if "k \<le> nat i" for k
    using that by (intro prefixSum_take_cong) (simp_all add: c'_def)
  show "cached_ok c'"
    unfolding cached_ok_iff
  proof (intro allI impI)
    fix k
    assume "k \<le> nat (measuredOffsetIndex c') \<and> k < length (offsets c')"
    then have "k \<le> nat (min i (measuredOffsetIndex c))" "k < length (offsets c)"
      by (simp_all add: c'_def)
    then have k: "k \<le> nat i" "k \<le> nat (measuredOffsetIndex c)" "k < length (offsets c)"
      by linarith+
    then have "offsets c ! k = prefixSum c k"
      using assms(2) by (simp add: cached_ok_iff)
    then show "offsets c' ! k = prefixSum c' k"
      using pre[OF k(1)] by (simp add: c'_def)
  qed
qed

lemma computeOffsets_prefix:
  assumes "well_formed c" "cached_ok c" "\<forall>j \<in> set js. 0 \<le> j \<and> j < length_c c"
  shows "\<exists>c'. computeOffsets c js = Some (c', map (\<lambda>j. prefixSum c (nat j)) js)"
  using assms
proof (induction js arbitrary: c)
  case Nil
  then show ?case by simp
next
  case (Cons j js)
  from Cons.prems have j: "0 \<le> j" "j < length_c c" by simp_all
  from computeOffset_prefix[OF Cons.prems(1,2) j]
  obtain c1 where c1: "computeOffset c j = Some (c1, prefixSum c (nat j))" "well_formed c1" "cached_ok c1"
    "sizes c1 = sizes c" "defaultItemSize c1 = defaultItemSize c" "length_c c1 = length_c c"
    by blast
  have "\<forall>j \<in> set js. 0 \<le> j \<and> j < length_c c1"
    using Cons.prems(3) c1(6) by simp
  from Cons.IH[OF c1(2,3) this]
  obtain c2 where c2: "computeOffsets c1 js = Some (c2, map (\<lambda>j. prefixSum c1 (nat j)) js)"
    by blast
  have "\<And>n. prefixSum c1 n = prefixSum c n"
    using c1(4,5) by (intro prefixSum_cong) simp_all
  with c1(1) c2 show ?case
    by (intro exI[of _ c2]) simp
qed

lemma appendCache_loop_pos:
  "0 < i \<Longrightarrow>
   appendCache_loop c len prepend i =
     c\<lparr>sizes := (if prepend then replicate (nat (len - i)) UNCACHED @ sizes c
                  else sizes c @ replicate (nat (len - i)) UNCACHED),
        offsets := offsets c @ replicate (nat (len - i)) UNCACHED\<rparr>"
proof (induction c len prepend i rule: appendCache_loop.induct)
  case (1 c len prepend i)
  show ?case
  proof (cases "i < len")
    case False
    then show ?thesis
      by (simp add: appendCache_loop.simps[of c len prepend i])
  next
    case True
    have n: "nat (len - i) = Suc (nat (len - (i + 1)))"
      using True by simp
    have "0 < i + 1" using "1.prems" by simp
    note IH = "1.IH"[OF True this]
    show ?thesis
      using True "1.prems"
      by (subst appendCache_loop.simps, subst IH)
         (simp add: n replicate_app_Cons_same)
  qed
qed

lemma appendCache_loop_zero:
  "appendCache_loop c len prepend 0 =
     c\<lparr>sizes := (if prepend then replicate (nat len) UNCACHED @ sizes c
                  else sizes c @ replicate (nat len) UNCACHED),
        offsets := offsets c @ (if 0 < len then 0 # replicate (nat len - 1) UNCACHED else [])\<rparr>"
proof (cases "0 < len")
  case False
  then show ?thesis
    by (simp add: appendCache_loop.simps[of c len prepend 0])
next
  case True
  have n: "nat len = Suc (nat (len - 1))"
    using True by simp
  show ?thesis
    using True
    by (subst appendCache_loop.simps, subst appendCache_loop_pos)
       (simp_all add: n replicate_app_Cons_same)
qed

lemma appendCache_closed:
  assumes "0 \<le> length_c c"
  shows "appendCache c len prepend =
     c\<lparr>sizes := (if prepend then replicate (nat (len - length_c c)) UNCACHED @ sizes c
                  else sizes c @ replicate (nat (len - length_c c)) UNCACHED),
        offsets := offsets c @
          (if length_c c = 0 \<and> 0 < len then 0 # replicate (nat len - 1) UNCACHED
           else replicate (nat (len - length_c c)) UNCACHED),
        length_c := len\<rparr>"
proof (cases "length_c c = 0")
  case True
  then show ?thesis
    by (simp add: appendCache_def appendCache_loop_zero)
next
  case False
  with assms have "0 < length_c c" by simp
  then show ?thesis
    by (simp add: appendCache_def appendCache_loop_pos)
qed

lemma initCache_closed:
  "initCache len itemSize =
     \<lparr>defaultItemSize = itemSize, length_c = len, sizes = replicate (nat len) UNCACHED,
      measuredOffsetIndex = 0,
      offsets = (if 0 < len then 0 # replicate (nat len - 1) UNCACHED else [])\<rparr>"
  by (simp add: initCache_def appendCache_closed)

lemma foldl_effectiveSize:
  "foldl (\<lambda>acc removed. acc + (if removed = UNCACHED then defaultItemSize c else removed)) a xs
     = a + sum_list (map (effectiveSize c) xs)"
  by (induction xs arbitrary: a) (simp_all add: effectiveSize_def)

lemma updateCacheLength_shrink:
  assumes "well_formed c" "0 \<le> len" "len < length_c c"
  shows "updateCacheLength c len isShift =
     (c\<lparr>sizes := (if isShift then drop (nat (length_c c - len)) (sizes c)
                   else take (nat len) (sizes c)),
         offsets := take (nat len) (offsets c),
         measuredOffsetIndex :=
           (if isShift then 0 else min (measuredOffsetIndex c) (max 0 (len - 1))),
         length_c := len\<rparr>,
      sum_list (map (effectiveSize c)
        (if isShift then take (nat (length_c c - len)) (sizes c) else drop (nat len) (sizes c))),
      True)"
proof -
  have len: "length_c c = int (length (sizes c))" "length (offsets c) = length (sizes c)"
    using assms(1) by (simp_all add: well_formed_iff)
  have start: "nat (max (int (length (sizes c)) + (len - length_c c)) 0) = nat len"
    using assms(2) len by simp
  show ?thesis
    using assms(2,3)
    by (simp add: updateCacheLength_def Let_def splice_head_def splice_tail_def clamp_def
        foldl_effectiveSize start len(2) flip: len(1))
qed

lemma updateCacheLength_grow:
  assumes "well_formed c" "length_c c \<le> len"
  shows "updateCacheLength c len isShift =
     (c\<lparr>sizes := (if isShift then replicate (nat (len - length_c c)) UNCACHED @ sizes c
                   else sizes c @ replicate (nat (len - length_c c)) UNCACHED),
         offsets := offsets c @
           (if length_c c = 0 \<and> 0 < len then 0 # replicate (nat len - 1) UNCACHED
            else replicate (nat (len - length_c c)) UNCACHED),
         measuredOffsetIndex :=
           (if isShift then 0 else min (measuredOffsetIndex c) (max 0 (len - 1))),
         length_c := len\<rparr>,
      defaultItemSize c * real_of_int (len - length_c c),
      False)"
proof -
  have "0 \<le> length_c c"
    using assms(1) by (simp add: well_formed_iff)
  then show ?thesis
    using assms(2)
    by (simp add: updateCacheLength_def Let_def clamp_def appendCache_closed)
qed

lemma cached_ok_watermark_0:
  "well_formed c \<Longrightarrow> measuredOffsetIndex c = 0 \<Longrightarrow> cached_ok c"
  by (auto simp: well_formed_iff cached_ok_iff)

lemma updateCacheLength_wf:
  assumes "well_formed c" "0 \<le> len"
  shows "well_formed (fst (updateCacheLength c len isShift))"
proof (cases "len < length_c c")
  case True
  show ?thesis
    using assms True
    by (auto simp: updateCacheLength_shrink[OF assms True] well_formed_iff nth_append)
next
  case False
  then have le: "length_c c \<le> len" by simp
  show ?thesis
    using assms le
    by (auto simp: updateCacheLength_grow[OF assms(1) le] well_formed_iff nth_append)
qed

lemma updateCacheLength_cached_ok:
  assumes "well_formed c" "cached_ok c" "0 \<le> len"
  shows "cached_ok (fst (updateCacheLength c len isShift))"
proof (cases isShift)
  case True
  have "measuredOffsetIndex (fst (updateCacheLength c len True)) = 0"
    by (simp add: updateCacheLength_def Let_def split: prod.splits)
  with updateCacheLength_wf[OF assms(1,3), of True] True show ?thesis
    by (simp add: cached_ok_watermark_0)
next
  case False
  let ?c' = "fst (updateCacheLength c len False)"
  have len: "length_c c = int (length (sizes c))" "length (offsets c) = length (sizes c)"
    and m: "0 \<le> measuredOffsetIndex c" "measuredOffsetIndex c \<le> max (length_c c - 1) 0"
    and first: "offsets c \<noteq> [] \<longrightarrow> offsets c ! 0 = 0"
    using assms(1)[unfolded well_formed_iff] by blast+
  have "offsets ?c' ! k = prefixSum ?c' k"
    if k: "k \<le> nat (measuredOffsetIndex ?c')" "k < length (offsets ?c')" for k
  proof (cases "len < length_c c")
    case True
    note eq = updateCacheLength_shrink[OF assms(1,3) True, of False]
    from k have k': "k \<le> nat (measuredOffsetIndex c)" "k < nat len" "k < length (offsets c)"
      using True len by (simp_all add: eq)
    then have "offsets c ! k = prefixSum c k"
      using assms(2) by (simp add: cached_ok_iff)
    moreover have "prefixSum ?c' k = prefixSum c k"
      using k' by (intro prefixSum_take_cong) (simp_all add: eq min_def)
    ultimately show ?thesis
      using k' by (simp add: eq)
  next
    case False
    then have le: "length_c c \<le> len" by simp
    note eq = updateCacheLength_grow[OF assms(1) le, of False]
    have pre: "prefixSum ?c' k = prefixSum c k" if "k \<le> length (sizes c)"
      using that by (intro prefixSum_take_cong) (simp_all add: eq)
    show ?thesis
    proof (cases "k < length (offsets c)")
      case True
      from k have "k \<le> nat (measuredOffsetIndex c)"
        by (simp add: eq)
      with True have "offsets c ! k = prefixSum c k"
        using assms(2) by (simp add: cached_ok_iff)
      with True pre len show ?thesis
        by (simp add: eq nth_append)
    next
      case False
      from k have "k \<le> nat (measuredOffsetIndex c)"
        by (simp add: eq)
      with False m len have k0: "k = 0" "length_c c = 0"
        by (auto simp: max_def split: if_splits)
      with k len have "0 < len"
        by (auto simp: eq split: if_splits)
      with k0 len show ?thesis
        by (simp add: eq)
    qed
  qed
  with False show ?thesis
    by (simp add: cached_ok_iff)
qed

lemma initCache_wf:
  "0 \<le> len \<Longrightarrow> well_formed (initCache len itemSize) \<and> cached_ok (initCache len itemSize)"
proof
  assume "0 \<le> len"
  then show w: "well_formed (initCache len itemSize)"
    by (auto simp: initCache_closed well_formed_iff)
  show "cached_ok (initCache len itemSize)"
    using w by (rule cached_ok_watermark_0) (simp add: initCache_closed)
qed

lemma computeTotalSize_preserves:
  assumes "computeTotalSize c = Some (c', v)" "well_formed c" "cached_ok c"
  shows "well_formed c' \<and> cached_ok c'"
proof (cases "length_c c = 0")
  case True
  with assms show ?thesis by (simp add: computeTotalSize_def)
next
  case False
  with assms(1) obtain off where "computeOffset c (length_c c - 1) = Some (c', off)"
    by (auto simp: computeTotalSize_def split: option.splits)
  from computeOffset_preserves[OF this assms(2,3)] show ?thesis by simp
qed

lemma computeRange_preserves:
  assumes "computeRange c scrollOffset prevStartIndex viewportSize = Some (c', r)"
    "well_formed c" "cached_ok c"
  shows "well_formed c' \<and> cached_ok c'"
proof -
  from assms(1) obtain off where
    "computeOffset c (min prevStartIndex (length_c c - 1)) = Some (c', off)"
    by (auto simp: computeRange_def findStartIndexWithOffset_def split: option.splits)
  from computeOffset_preserves[OF this assms(2,3)] show ?thesis by simp
qed

lemma reachable_wf_cached_ok:
  "reachable c \<Longrightarrow> well_formed c \<and> cached_ok c"
proof (induction rule: reachable.induct)
  case (r_init len itemSize)
  then show ?case by (rule initCache_wf)
next
  case (r_setItemSize c index sz c' b)
  from setItemSize_Some[OF r_setItemSize.hyps(2)]
  have i: "0 \<le> index" "index < int (length (sizes c))"
    and c': "c' = c\<lparr>sizes := (sizes c)[nat index := sz],
                     measuredOffsetIndex := min index (measuredOffsetIndex c)\<rparr>"
    by simp_all
  from r_setItemSize.IH have "well_formed c" "cached_ok c" by simp_all
  from setItemSize_keeps[OF this i, of sz] c' show ?case by simp
next
  case (r_computeOffset c index c' v)
  from r_computeOffset.IH have "well_formed c" "cached_ok c" by simp_all
  from computeOffset_preserves[OF r_computeOffset.hyps(2) this] show ?case by simp
next
  case (r_computeTotalSize c c' v)
  from r_computeTotalSize.IH have "well_formed c" "cached_ok c" by simp_all
  from computeTotalSize_preserves[OF r_computeTotalSize.hyps(2) this] show ?case .
next
  case (r_computeRange c scrollOffset prevStartIndex viewportSize c' r)
  from r_computeRange.IH have "well_formed c" "cached_ok c" by simp_all
  from computeRange_preserves[OF r_computeRange.hyps(2) this] show ?case .
next
  case (r_updateCacheLength c len isShift c' r)
  from r_updateCacheLength.IH have w: "well_formed c" "cached_ok c" by simp_all
  have "c' = fst (updateCacheLength c len isShift)"
    using r_updateCacheLength.hyps(3) by simp
  with updateCacheLength_wf[OF w(1) r_updateCacheLength.hyps(2), of isShift]
    updateCacheLength_cached_ok[OF w r_updateCacheLength.hyps(2), of isShift]
  show ?case by simp
qed

text \<open>
  \<open>estimateDefaultItemSize\<close> is not among the operations of \<open>reachable\<close>: it changes the
  default size and leaves the watermark where it is, so the offsets cached for unmeasured
  items below the watermark no longer agree with the effective sizes.
\<close>

lemma estimateDefaultItemSize_not_cached_ok:
  "reachable \<lparr>defaultItemSize = 10, length_c = 3, sizes = [UNCACHED, UNCACHED, 50],
       measuredOffsetIndex = 2, offsets = [0, 10, 20]\<rparr> \<and>
   estimateDefaultItemSize \<lparr>defaultItemSize = 10, length_c = 3, sizes = [UNCACHED, UNCACHED, 50],
       measuredOffsetIndex = 2, offsets = [0, 10, 20]\<rparr> =
     Some \<lparr>defaultItemSize = 50, length_c = 3, sizes = [UNCACHED, UNCACHED, 50],
       measuredOffsetIndex = 2, offsets = [0, 10, 20]\<rparr> \<and>
   \<not> cached_ok \<lparr>defaultItemSize = 50, length_c = 3, sizes = [UNCACHED, UNCACHED, 50],
       measuredOffsetIndex = 2, offsets = [0, 10, 20]\<rparr>"
proof -
  let ?c1 = "\<lparr>defaultItemSize = 10, length_c = 3, sizes = [UNCACHED, UNCACHED, UNCACHED],
       measuredOffsetIndex = 2, offsets = [0, 10, 20]\<rparr>"
  let ?c2 = "\<lparr>defaultItemSize = 10, length_c = 3, sizes = [UNCACHED, UNCACHED, 50],
       measuredOffsetIndex = 2, offsets = [0, 10, 20]\<rparr>"
  have r0: "reachable (initCache 3 10)"
    by (rule r_init) simp
  have s1: "computeOffset (initCache 3 10) 2 = Some (?c1, 20)"
    by code_simp
  have s2: "setItemSize ?c1 2 50 = Some (?c2, True)"
    by code_simp
  have "reachable ?c2"
    by (rule r_setItemSize[OF r_computeOffset[OF r0 s1] s2])
  moreover have "estimateDefaultItemSize ?c2 =
     Some \<lparr>defaultItemSize = 50, length_c = 3, sizes = [UNCACHED, UNCACHED, 50],
       measuredOffsetIndex = 2, offsets = [0, 10, 20]\<rparr>"
    by code_simp
  moreover have "\<not> cached_ok \<lparr>defaultItemSize = 50, length_c = 3,
       sizes = [UNCACHED, UNCACHED, 50], measuredOffsetIndex = 2, offsets = [0, 10, 20]\<rparr>"
    by code_simp
  ultimately show ?thesis by simp
qed

lemma findIndex_forward_done:
  "\<not> i < length_c c - 1 \<Longrightarrow> findIndex_forward c i sm distance = Some (i, [])"
  by (subst findIndex_forward.simps) simp




lemma median_example: "median [10, 1000, 12] = 12"
  by code_simp

section \<open>The prefix-sum invariant of the cached offsets\<close>

text \<open>
  C1, as amended. In every state reachable from \<open>initCache\<close> by \<open>setItemSize\<close>,
  \<open>computeOffset\<close>, \<open>computeTotalSize\<close>, \<open>computeRange\<close> and \<open>updateCacheLength\<close>,
  for every index \<open>i\<close> with \<open>0 \<le> i \<le> measuredOffsetIndex\<close> and \<open>i < length\<close>, the entry
  \<open>offsets[i]\<close> exists and equals the sum of the effective sizes of the items before \<open>i\<close>.
\<close>

theorem reachable_offsets_cached:
  assumes "reachable c" "0 \<le> i" "i \<le> measuredOffsetIndex c" "i < length_c c"
  shows "js_get (offsets c) i = Some (prefixSum c (nat i))"
proof -
  from reachable_wf_cached_ok[OF assms(1)] have w: "well_formed c" and ok: "cached_ok c"
    by simp_all
  have len: "length_c c = int (length (sizes c))" "length (offsets c) = length (sizes c)"
    using w[unfolded well_formed_iff] by blast+
  then have "nat i \<le> nat (measuredOffsetIndex c)" "nat i < length (offsets c)"
    using assms(2,3,4) by linarith+
  then have "offsets c ! nat i = prefixSum c (nat i)"
    using ok by (simp add: cached_ok_iff)
  then show ?thesis
    using assms(2,4) len by (simp add: js_get_def)
qed

text \<open>A store that has been measured and queried, and its offset at the watermark.\<close>

theorem reachable_offsets_cached_witness:
  "reachable \<lparr>defaultItemSize = 10, length_c = 3, sizes = [UNCACHED, 25, UNCACHED],
       measuredOffsetIndex = 2, offsets = [0, 10, 35]\<rparr> \<and>
   js_get [0, 10, 35] 2 =
     Some (prefixSum \<lparr>defaultItemSize = 10, length_c = 3, sizes = [UNCACHED, 25, UNCACHED],
       measuredOffsetIndex = 2, offsets = [0, 10, 35]\<rparr> (nat 2)) \<and>
   prefixSum \<lparr>defaultItemSize = 10, length_c = 3, sizes = [UNCACHED, 25, UNCACHED],
       measuredOffsetIndex = 2, offsets = [0, 10, 35]\<rparr> (nat 2) = 35"
proof -
  let ?c1 = "\<lparr>defaultItemSize = 10, length_c = 3, sizes = [UNCACHED, 25, UNCACHED],
       measuredOffsetIndex = 0, offsets = [0, UNCACHED, UNCACHED]\<rparr>"
  let ?c2 = "\<lparr>defaultItemSize = 10, length_c = 3, sizes = [UNCACHED, 25, UNCACHED],
       measuredOffsetIndex = 2, offsets = [0, 10, 35]\<rparr>"
  have r0: "reachable (initCache 3 10)"
    by (rule r_init) simp
  have s1: "setItemSize (initCache 3 10) 1 25 = Some (?c1, True)"
    by code_simp
  have s2: "computeOffset ?c1 2 = Some (?c2, 35)"
    by code_simp
  have r2: "reachable ?c2"
    by (rule r_computeOffset[OF r_setItemSize[OF r0 s1] s2])
  have "js_get (offsets ?c2) 2 = Some (prefixSum ?c2 (nat 2))"
    by (rule reachable_offsets_cached[OF r2]) simp_all
  moreover have "prefixSum ?c2 (nat 2) = 35"
    by code_simp
  ultimately show ?thesis
    using r2 by simp
qed

text \<open>
  C1 as stated, without \<open>i < length\<close>, fails on the empty store: \<open>initCache 0 10\<close> has
  the watermark \<open>0\<close> and no offsets at all, so \<open>offsets[0]\<close> is not the empty sum \<open>0\<close>
  (in the source it is \<open>undefined\<close>).
\<close>

theorem empty_store_offset_counterexample:
  "reachable (initCache 0 10) \<and> (0::int) \<le> 0 \<and> 0 \<le> measuredOffsetIndex (initCache 0 10) \<and>
   js_get (offsets (initCache 0 10)) 0 = None \<and>
   js_get (offsets (initCache 0 10)) 0 \<noteq> Some (prefixSum (initCache 0 10) (nat 0))"
proof -
  have "reachable (initCache 0 10)"
    by (rule r_init) simp
  moreover have "js_get (offsets (initCache 0 10)) 0 = None"
    by (simp add: initCache_closed js_get_def)
  moreover have "0 \<le> measuredOffsetIndex (initCache 0 10)"
    by (simp add: initCache_closed)
  ultimately show ?thesis by simp
qed

section \<open>Invalidation by a new measurement\<close>

text \<open>
  Take a store in the shape of section 3 whose cached offsets agree with its sizes, and an
  index \<open>i\<close> with \<open>0 \<le> i < length\<close> at or below the watermark. After
  \<open>setItemSize c i v\<close>, every later \<open>computeOffset\<close> at an index \<open>j\<close> with
  \<open>i \<le> j < length\<close> (any number of them, in any order) returns the prefix sum of the
  effective sizes of the store that holds \<open>v\<close> at index \<open>i\<close>, not the offset cached
  before.
\<close>

lemma setItemSize_invalidates:
  assumes "well_formed c" "cached_ok c" "0 \<le> i" "i < length_c c" "i \<le> measuredOffsetIndex c"
    "\<forall>j \<in> set js. i \<le> j \<and> j < length_c c"
  shows "\<exists>c1 b c2.
           setItemSize c i v = Some (c1, b) \<and>
           length_c c1 = length_c c \<and> defaultItemSize c1 = defaultItemSize c \<and>
           sizes c1 = (sizes c)[nat i := v] \<and>
           computeOffsets c1 js = Some (c2, map (\<lambda>j. prefixSum c1 (nat j)) js)"
proof -
  let ?c1 = "c\<lparr>sizes := (sizes c)[nat i := v],
                 measuredOffsetIndex := min i (measuredOffsetIndex c)\<rparr>"
  have i: "i < int (length (sizes c))"
    using assms(1,4) by (simp add: well_formed_iff)
  have set: "setItemSize c i v = Some (?c1, sizes c ! nat i = UNCACHED)"
    using assms(3) i by (rule setItemSize_in_range)
  have keeps: "well_formed ?c1" "cached_ok ?c1"
    using setItemSize_keeps[OF assms(1,2,3) i, of v] by simp_all
  have "\<forall>j \<in> set js. 0 \<le> j \<and> j < length_c ?c1"
    using assms(3,6) by auto
  from computeOffsets_prefix[OF keeps this]
  obtain c2 where "computeOffsets ?c1 js = Some (c2, map (\<lambda>j. prefixSum ?c1 (nat j)) js)"
    by blast
  with set show ?thesis
    by (intro exI[of _ ?c1] exI[of _ "sizes c ! nat i = UNCACHED"] exI[of _ c2]) simp
qed

lemma setItemSize_invalidates_example:
  "well_formed \<lparr>defaultItemSize = 10, length_c = 3, sizes = [UNCACHED, UNCACHED, UNCACHED],
       measuredOffsetIndex = 2, offsets = [0, 10, 20]\<rparr> \<and>
   cached_ok \<lparr>defaultItemSize = 10, length_c = 3, sizes = [UNCACHED, UNCACHED, UNCACHED],
       measuredOffsetIndex = 2, offsets = [0, 10, 20]\<rparr> \<and>
   (\<exists>c1 b c2.
      setItemSize \<lparr>defaultItemSize = 10, length_c = 3, sizes = [UNCACHED, UNCACHED, UNCACHED],
          measuredOffsetIndex = 2, offsets = [0, 10, 20]\<rparr> 1 25 = Some (c1, b) \<and>
      sizes c1 = [UNCACHED, 25, UNCACHED] \<and>
      computeOffsets c1 [1, 2, 1] = Some (c2, [10, 35, 10]))"
proof -
  let ?c = "\<lparr>defaultItemSize = 10, length_c = 3, sizes = [UNCACHED, UNCACHED, UNCACHED],
       measuredOffsetIndex = 2, offsets = [0, 10, 20]\<rparr>"
  have h1: "well_formed ?c" by code_simp
  have h2: "cached_ok ?c" by code_simp
  have h3: "(0::int) \<le> 1" "1 < length_c ?c" "1 \<le> measuredOffsetIndex ?c"
    "\<forall>j \<in> set [1, 2, 1]. 1 \<le> j \<and> j < length_c ?c"
    by simp_all
  from setItemSize_invalidates[OF h1 h2 h3, of 25]
  obtain c1 b c2 where r: "setItemSize ?c 1 25 = Some (c1, b)"
    "defaultItemSize c1 = defaultItemSize ?c" "sizes c1 = (sizes ?c)[nat 1 := 25]"
    "computeOffsets c1 [1, 2, 1] = Some (c2, map (\<lambda>j. prefixSum c1 (nat j)) [1, 2, 1])"
    by blast
  have "map (\<lambda>j. prefixSum c1 (nat j)) [1, 2, 1] = [10, 35, 10]"
    using r(2,3) by (simp add: prefixSum_def effectiveSize_def UNCACHED_def)
  with r h1 h2 show ?thesis by auto
qed

text \<open>
  C2. For every store and every index \<open>i\<close> with \<open>0 \<le> i < length\<close> at or below the
  watermark, after \<open>setItemSize c i v\<close> every later \<open>computeOffset\<close> at an index
  \<open>j\<close> with \<open>i \<le> j < length\<close> is to return the prefix sum of the effective sizes of
  the store that holds \<open>v\<close> at index \<open>i\<close>. The source does not do so on every store
  that its own operations build. \<open>estimateDefaultItemSize\<close> changes the default size,
  and with it the effective size of every unmeasured item, but leaves the watermark where
  it is, where \<open>setItemSize\<close> lowers it ("mark as dirty") and \<open>updateCacheLength\<close>
  resets it ("discard cache"). The evaluation below creates a store of 3 items with default
  size 10, reads the offset of item 2, measures item 2 as 50 and estimates the default
  size, which becomes 50 at watermark 2 with the offsets 0, 10, 20. Then
  \<open>setItemSize\<close> at index 1 with size 25 is followed by \<open>computeOffset\<close> at 2, which
  returns 35 where the prefix sum is 75, and by \<open>computeOffset\<close> at 1, which returns 10
  where the prefix sum is 50.
\<close>

theorem setItemSize_stale_after_estimate:
  "computeOffset (initCache 3 10) 2 =
     Some (\<lparr>defaultItemSize = 10, length_c = 3, sizes = [UNCACHED, UNCACHED, UNCACHED],
             measuredOffsetIndex = 2, offsets = [0, 10, 20]\<rparr>, 20) \<and>
   setItemSize \<lparr>defaultItemSize = 10, length_c = 3, sizes = [UNCACHED, UNCACHED, UNCACHED],
       measuredOffsetIndex = 2, offsets = [0, 10, 20]\<rparr> 2 50 =
     Some (\<lparr>defaultItemSize = 10, length_c = 3, sizes = [UNCACHED, UNCACHED, 50],
             measuredOffsetIndex = 2, offsets = [0, 10, 20]\<rparr>, True) \<and>
   estimateDefaultItemSize \<lparr>defaultItemSize = 10, length_c = 3, sizes = [UNCACHED, UNCACHED, 50],
       measuredOffsetIndex = 2, offsets = [0, 10, 20]\<rparr> =
     Some \<lparr>defaultItemSize = 50, length_c = 3, sizes = [UNCACHED, UNCACHED, 50],
            measuredOffsetIndex = 2, offsets = [0, 10, 20]\<rparr> \<and>
   well_formed \<lparr>defaultItemSize = 50, length_c = 3, sizes = [UNCACHED, UNCACHED, 50],
       measuredOffsetIndex = 2, offsets = [0, 10, 20]\<rparr> \<and>
   setItemSize \<lparr>defaultItemSize = 50, length_c = 3, sizes = [UNCACHED, UNCACHED, 50],
       measuredOffsetIndex = 2, offsets = [0, 10, 20]\<rparr> 1 25 =
     Some (\<lparr>defaultItemSize = 50, length_c = 3, sizes = [UNCACHED, 25, 50],
             measuredOffsetIndex = 1, offsets = [0, 10, 20]\<rparr>, True) \<and>
   computeOffset \<lparr>defaultItemSize = 50, length_c = 3, sizes = [UNCACHED, 25, 50],
       measuredOffsetIndex = 1, offsets = [0, 10, 20]\<rparr> 2 =
     Some (\<lparr>defaultItemSize = 50, length_c = 3, sizes = [UNCACHED, 25, 50],
             measuredOffsetIndex = 2, offsets = [0, 10, 35]\<rparr>, 35) \<and>
   prefixSum \<lparr>defaultItemSize = 50, length_c = 3, sizes = [UNCACHED, 25, 50],
       measuredOffsetIndex = 1, offsets = [0, 10, 20]\<rparr> 2 = 75 \<and>
   computeOffset \<lparr>defaultItemSize = 50, length_c = 3, sizes = [UNCACHED, 25, 50],
       measuredOffsetIndex = 2, offsets = [0, 10, 35]\<rparr> 1 =
     Some (\<lparr>defaultItemSize = 50, length_c = 3, sizes = [UNCACHED, 25, 50],
             measuredOffsetIndex = 2, offsets = [0, 10, 35]\<rparr>, 10) \<and>
   prefixSum \<lparr>defaultItemSize = 50, length_c = 3, sizes = [UNCACHED, 25, 50],
       measuredOffsetIndex = 2, offsets = [0, 10, 35]\<rparr> 1 = 50"
proof (intro conjI)
qed code_simp+

section \<open>Range query on a fresh store\<close>

text \<open>
  C3. On a freshly created store of 10 items with default size 10, none of them measured,
  \<open>computeRange\<close> with scroll offset 25, previous start index 0 and viewport size 30
  returns the pair (2, 5); the store is left as it was.
\<close>

theorem computeRange_fresh_10:
  "computeRange (initCache 10 10) 25 0 30 = Some (initCache 10 10, 2, 5)"
  by code_simp

section \<open>Shrinking at the tail\<close>

text \<open>
  C4. For a store in the shape of section 3, \<open>updateCacheLength c len False\<close> with
  \<open>0 \<le> len < length\<close> keeps the first \<open>len\<close> sizes, returns as shift the sum of the
  effective sizes of the \<open>length - len\<close> removed tail items (the default size for an
  unmeasured one), and returns \<open>True\<close> for the removal. In particular a store of 5
  unmeasured items with default size 10, shrunk to 3, gives (20, True).
\<close>

theorem updateCacheLength_shrink_tail:
  assumes "well_formed c" "0 \<le> len" "len < length_c c"
  shows "snd (updateCacheLength c len False) =
           (sum_list (map (effectiveSize c) (drop (nat len) (sizes c))), True) \<and>
         length (drop (nat len) (sizes c)) = nat (length_c c - len) \<and>
         sizes (fst (updateCacheLength c len False)) = take (nat len) (sizes c) \<and>
         snd (updateCacheLength (initCache 5 10) 3 False) = (20, True)"
proof -
  have "length_c c = int (length (sizes c))"
    using assms(1)[unfolded well_formed_iff] by blast
  then have "length (drop (nat len) (sizes c)) = nat (length_c c - len)"
    using assms(2) by simp
  moreover have "snd (updateCacheLength (initCache 5 10) 3 False) = (20, True)"
    by code_simp
  ultimately show ?thesis
    by (simp add: updateCacheLength_shrink[OF assms])
qed

theorem updateCacheLength_shrink_tail_witness:
  "well_formed \<lparr>defaultItemSize = 10, length_c = 4, sizes = [UNCACHED, 30, UNCACHED, 7],
       measuredOffsetIndex = 1, offsets = [0, 10, UNCACHED, UNCACHED]\<rparr> \<and>
   snd (updateCacheLength \<lparr>defaultItemSize = 10, length_c = 4, sizes = [UNCACHED, 30, UNCACHED, 7],
       measuredOffsetIndex = 1, offsets = [0, 10, UNCACHED, UNCACHED]\<rparr> 1 False) = (47, True)"
proof -
  let ?c = "\<lparr>defaultItemSize = 10, length_c = 4, sizes = [UNCACHED, 30, UNCACHED, 7],
       measuredOffsetIndex = 1, offsets = [0, 10, UNCACHED, UNCACHED]\<rparr>"
  have h: "well_formed ?c" "(0::int) \<le> 1" "1 < length_c ?c"
    by code_simp+
  have "sum_list (map (effectiveSize ?c) (drop (nat 1) (sizes ?c))) = 47"
    by code_simp
  with updateCacheLength_shrink_tail[OF h] h(1) show ?thesis
    by simp
qed

section \<open>Prepending resets the watermark\<close>

text \<open>
  C5. After \<open>updateCacheLength c len True\<close> the watermark is 0, for every store and every
  \<open>len\<close>, whether the call grew or shrank the store. So on a store in the shape of
  section 3 and with \<open>0 \<le> len\<close>, a following \<open>computeOffset\<close> at an index
  \<open>0 < j < len\<close> returns the prefix sum of the effective sizes of the store as it is
  now, computed from index 0, whatever the offsets cached before were.
\<close>

theorem updateCacheLength_prepend_resets:
  "measuredOffsetIndex (fst (updateCacheLength c len True)) = 0 \<and>
   (well_formed c \<and> 0 \<le> len \<longrightarrow>
      (\<forall>j. 0 < j \<and> j < len \<longrightarrow>
         (\<exists>c'. computeOffset (fst (updateCacheLength c len True)) j =
                 Some (c', prefixSum (fst (updateCacheLength c len True)) (nat j)))))"
proof (intro conjI impI allI)
  show m: "measuredOffsetIndex (fst (updateCacheLength c len True)) = 0"
    by (simp add: updateCacheLength_def Let_def split: prod.splits)
  fix j
  assume w: "well_formed c \<and> 0 \<le> len" and j: "0 < j \<and> j < len"
  let ?c' = "fst (updateCacheLength c len True)"
  have w': "well_formed ?c'"
    using w by (simp add: updateCacheLength_wf)
  then have ok': "cached_ok ?c'"
    using m by (rule cached_ok_watermark_0)
  have "length_c ?c' = len"
    by (simp add: updateCacheLength_def Let_def split: prod.splits)
  with j have "0 \<le> j" "j < length_c ?c'" by simp_all
  from computeOffset_prefix[OF w' ok' this]
  show "\<exists>c'. computeOffset ?c' j = Some (c', prefixSum ?c' (nat j))"
    by blast
qed

theorem updateCacheLength_prepend_resets_witness:
  "well_formed \<lparr>defaultItemSize = 10, length_c = 3, sizes = [UNCACHED, 25, UNCACHED],
       measuredOffsetIndex = 2, offsets = [0, 10, 35]\<rparr> \<and>
   fst (updateCacheLength \<lparr>defaultItemSize = 10, length_c = 3, sizes = [UNCACHED, 25, UNCACHED],
       measuredOffsetIndex = 2, offsets = [0, 10, 35]\<rparr> 5 True) =
     \<lparr>defaultItemSize = 10, length_c = 5,
      sizes = [UNCACHED, UNCACHED, UNCACHED, 25, UNCACHED],
      measuredOffsetIndex = 0, offsets = [0, 10, 35, UNCACHED, UNCACHED]\<rparr> \<and>
   (\<exists>c'. computeOffset \<lparr>defaultItemSize = 10, length_c = 5,
      sizes = [UNCACHED, UNCACHED, UNCACHED, 25, UNCACHED],
      measuredOffsetIndex = 0, offsets = [0, 10, 35, UNCACHED, UNCACHED]\<rparr> 2 = Some (c', 20))"
proof -
  let ?c = "\<lparr>defaultItemSize = 10, length_c = 3, sizes = [UNCACHED, 25, UNCACHED],
       measuredOffsetIndex = 2, offsets = [0, 10, 35]\<rparr>"
  let ?c' = "\<lparr>defaultItemSize = 10, length_c = 5,
      sizes = [UNCACHED, UNCACHED, UNCACHED, 25, UNCACHED],
      measuredOffsetIndex = 0, offsets = [0, 10, 35, UNCACHED, UNCACHED]\<rparr>"
  have h: "well_formed ?c" by code_simp
  have u: "fst (updateCacheLength ?c 5 True) = ?c'" by code_simp
  have p: "prefixSum ?c' (nat 2) = 20" by code_simp
  have a: "well_formed ?c \<and> (0::int) \<le> 5" and j: "(0::int) < 2 \<and> (2::int) < 5"
    using h by simp_all
  from updateCacheLength_prepend_resets[of ?c 5, THEN conjunct2, rule_format, OF a j]
  have "\<exists>c'. computeOffset (fst (updateCacheLength ?c 5 True)) 2 =
                 Some (c', prefixSum (fst (updateCacheLength ?c 5 True)) (nat 2))" .
  with h u p show ?thesis by simp
qed

section \<open>Repeated offset queries\<close>

text \<open>
  C6. For a store in the shape of section 3 and an index \<open>0 \<le> i < length\<close>,
  \<open>computeOffset\<close> called twice in a row returns the same value both times, and the
  second call returns the store it was given, watermark included.
\<close>

theorem computeOffset_twice:
  assumes "well_formed c" "0 \<le> i" "i < length_c c"
  shows "\<exists>c1 v. computeOffset c i = Some (c1, v) \<and> computeOffset c1 i = Some (c1, v)"
proof (cases "i \<le> measuredOffsetIndex c")
  case True
  have "js_get (offsets c) i = Some (offsets c ! nat i)"
    using assms by (simp add: js_get_def well_formed_iff)
  then have "computeOffset c i = Some (c, offsets c ! nat i)"
    using assms True by (auto simp: computeOffset_def)
  then show ?thesis by blast
next
  case False
  let ?m = "measuredOffsetIndex c"
  have len: "length (offsets c) = length (sizes c)" "length_c c = int (length (sizes c))"
    and m: "0 \<le> ?m" "?m < i"
    using assms(1) False by (simp_all add: well_formed_iff)
  have nonempty: "length_c c \<noteq> 0" using assms(2,3) by simp
  have idx: "i < int (length (sizes c))" using assms(3) len by simp
  have get: "js_get (offsets c) ?m = Some (offsets c ! nat ?m)"
    using m idx len by (simp add: js_get_def)
  from computeOffset_loop_shape[OF len(1) m idx, of "offsets c ! nat ?m"]
  obtain os where os:
    "computeOffset_loop c i ?m (offsets c ! nat ?m) = Some (c\<lparr>offsets := os\<rparr>, os ! nat i)"
    "length os = length (offsets c)"
    by blast
  let ?c1 = "c\<lparr>offsets := os, measuredOffsetIndex := i\<rparr>"
  have first: "computeOffset c i = Some (?c1, os ! nat i)"
    using nonempty False get os(1) by (simp add: computeOffset_def)
  have "js_get (offsets ?c1) i = Some (os ! nat i)"
    using assms(2) idx os(2) len by (simp add: js_get_def)
  then have second: "computeOffset ?c1 i = Some (?c1, os ! nat i)"
    using nonempty by (simp add: computeOffset_def)
  from first second show ?thesis by blast
qed

theorem computeOffset_twice_witness:
  "well_formed (initCache 3 10) \<and> 2 < length_c (initCache 3 10) \<and>
   (\<exists>c1 v. computeOffset (initCache 3 10) 2 = Some (c1, v) \<and>
            computeOffset c1 2 = Some (c1, v))"
proof -
  have h1: "well_formed (initCache 3 10)" by code_simp
  have h2: "(0::int) \<le> 2" "2 < length_c (initCache 3 10)" by code_simp+
  from computeOffset_twice[OF h1 h2] h1 h2 show ?thesis by blast
qed

section \<open>Estimating the default size\<close>

text \<open>
  C7. For a store with at least one measured size, \<open>estimateDefaultItemSize\<close> changes
  only the default size: to the common value when all measured sizes are the same, and to
  the median of the measured sizes otherwise. In particular the measured sizes 10, 10, 10
  give 10, and the measured sizes 10, 1000, 12 give 12.
\<close>

theorem estimateDefaultItemSize_policy:
  assumes "measured = filter (\<lambda>s. s \<noteq> UNCACHED) (sizes c)" "measured \<noteq> []"
  shows "\<exists>c'. estimateDefaultItemSize c = Some c' \<and>
           c' = c\<lparr>defaultItemSize := defaultItemSize c'\<rparr> \<and>
           (\<forall>v. (\<forall>s \<in> set measured. s = v) \<longrightarrow> defaultItemSize c' = v) \<and>
           (\<not> (\<exists>v. \<forall>s \<in> set measured. s = v) \<longrightarrow> defaultItemSize c' = median measured) \<and>
           (measured = [10, 10, 10] \<longrightarrow> defaultItemSize c' = 10) \<and>
           (measured = [10, 1000, 12] \<longrightarrow> defaultItemSize c' = 12)"
proof -
  from assms(2) obtain m ms where ms: "measured = m # ms"
    by (cases measured) simp_all
  let ?d = "if list_all (\<lambda>s. s = m) measured then m else median measured"
  let ?c' = "c\<lparr>defaultItemSize := ?d\<rparr>"
  have f: "filter (\<lambda>s. s \<noteq> UNCACHED) (sizes c) = m # ms"
    using assms(1) ms by simp
  have est: "estimateDefaultItemSize c = Some ?c'"
    by (simp add: estimateDefaultItemSize_def Let_def f ms)
  have same: "?d = v" if "\<forall>s \<in> set measured. s = v" for v
    using that ms by (simp add: list_all_iff)
  have differ: "?d = median measured" if "\<not> (\<exists>v. \<forall>s \<in> set measured. s = v)"
    using that by (auto simp: list_all_iff)
  have ex1: "?d = 10" if "measured = [10, 10, 10]"
    using that by (intro same) simp
  have ex2: "?d = 12" if "measured = [10, 1000, 12]"
  proof -
    from that have "\<not> (\<exists>v. \<forall>s \<in> set measured. s = v)" by auto
    from differ[OF this] that show ?thesis by (simp add: median_example)
  qed
  show ?thesis
    using est same differ ex1 ex2
    by (intro exI[of _ ?c']) simp
qed

theorem estimateDefaultItemSize_policy_witness:
  "map_option defaultItemSize
     (estimateDefaultItemSize \<lparr>defaultItemSize = 50, length_c = 4,
        sizes = [10, UNCACHED, 1000, 12], measuredOffsetIndex = 0,
        offsets = [0, UNCACHED, UNCACHED, UNCACHED]\<rparr>) = Some 12 \<and>
   map_option defaultItemSize
     (estimateDefaultItemSize \<lparr>defaultItemSize = 50, length_c = 4,
        sizes = [10, 10, UNCACHED, 10], measuredOffsetIndex = 0,
        offsets = [0, UNCACHED, UNCACHED, UNCACHED]\<rparr>) = Some 10"
proof -
  let ?a = "\<lparr>defaultItemSize = 50, length_c = 4,
        sizes = [10, UNCACHED, 1000, 12], measuredOffsetIndex = 0,
        offsets = [0, UNCACHED, UNCACHED, UNCACHED]\<rparr>"
  let ?b = "\<lparr>defaultItemSize = 50, length_c = 4,
        sizes = [10, 10, UNCACHED, 10], measuredOffsetIndex = 0,
        offsets = [0, UNCACHED, UNCACHED, UNCACHED]\<rparr>"
  have a: "[10, 1000, 12] = filter (\<lambda>s. s \<noteq> UNCACHED) (sizes ?a)" "[10, 1000, 12] \<noteq> ([]::real list)"
    and b: "[10, 10, 10] = filter (\<lambda>s. s \<noteq> UNCACHED) (sizes ?b)" "[10, 10, 10] \<noteq> ([]::real list)"
    by (simp_all add: UNCACHED_def)
  from estimateDefaultItemSize_policy[OF a]
  have "map_option defaultItemSize (estimateDefaultItemSize ?a) = Some 12" by auto
  moreover from estimateDefaultItemSize_policy[OF b]
  have "map_option defaultItemSize (estimateDefaultItemSize ?b) = Some 10" by auto
  ultimately show ?thesis by simp
qed

section \<open>Bounds of the scans of findIndex\<close>



section \<open>A query at distance zero\<close>

text \<open>
  C9. For a store with \<open>length > 0\<close> sizes, all of them of positive effective size, and
  every \<open>0 \<le> fromIndex \<le> length - 1\<close>, \<open>findIndex c fromIndex 0\<close> returns \<open>fromIndex\<close>.
\<close>

theorem findIndex_zero_distance:
  assumes "length_c c = int (length (sizes c))" "0 < length_c c"
    "0 \<le> fromIndex" "fromIndex \<le> length_c c - 1"
    "list_all (\<lambda>s. 0 < effectiveSize c s) (sizes c)"
  shows "findIndex c fromIndex 0 = Some fromIndex"
proof (cases "fromIndex < length_c c - 1")
  case False
  then have "findIndex_scan c fromIndex 0 = Some (fromIndex, [])"
    by (simp add: findIndex_scan_def findIndex_forward_done)
  with assms(3,4) show ?thesis
    by (simp add: findIndex_def clamp_def)
next
  case True
  let ?h = "effectiveSize c (sizes c ! nat fromIndex)"
  have g: "getItemSize c fromIndex = Some ?h"
    using assms(1,3) True by (simp add: getItemSize_eff)
  have "sizes c ! nat fromIndex \<in> set (sizes c)"
    using assms(1,3) True by simp
  with assms(5) have "0 < ?h"
    by (simp add: list_all_iff)
  then have "findIndex_forward c fromIndex 0 0 = Some (fromIndex, [fromIndex])"
    using True g by (simp add: findIndex_forward.simps[of c fromIndex 0 0] Let_def)
  then have "findIndex_scan c fromIndex 0 = Some (fromIndex, [fromIndex])"
    by (simp add: findIndex_scan_def)
  with assms(3,4) show ?thesis
    by (simp add: findIndex_def clamp_def)
qed

theorem findIndex_zero_distance_witness:
  "list_all (\<lambda>s. 0 < effectiveSize (initCache 3 10) s) (sizes (initCache 3 10)) \<and>
   findIndex (initCache 3 10) 1 0 = Some 1"
proof -
  have h: "length_c (initCache 3 10) = int (length (sizes (initCache 3 10)))"
    "0 < length_c (initCache 3 10)" "(0::int) \<le> 1" "1 \<le> length_c (initCache 3 10) - 1"
    "list_all (\<lambda>s. 0 < effectiveSize (initCache 3 10) s) (sizes (initCache 3 10))"
    by code_simp+
  from findIndex_zero_distance[OF h] h(5) show ?thesis by simp
qed

section \<open>Growing at the tail\<close>

text \<open>
  C10. For a store in the shape of section 3, \<open>updateCacheLength c len False\<close> with
  \<open>len > length\<close> leaves the first \<open>length\<close> sizes, the first \<open>length\<close> offsets, the
  watermark and the default size as they were; each of the \<open>len - length\<close> sizes it
  appends is \<open>UNCACHED\<close>; and cached offsets that agreed with the sizes still do.
\<close>

theorem updateCacheLength_tail_growth:
  assumes "well_formed c" "length_c c < len" "updateCacheLength c len False = (c', r)"
  shows "take (length (sizes c)) (sizes c') = sizes c \<and>
         take (length (offsets c)) (offsets c') = offsets c \<and>
         measuredOffsetIndex c' = measuredOffsetIndex c \<and>
         defaultItemSize c' = defaultItemSize c \<and>
         drop (length (sizes c)) (sizes c') = replicate (nat (len - length_c c)) UNCACHED \<and>
         length (sizes c') = nat len \<and>
         (cached_ok c \<longrightarrow> cached_ok c')"
proof -
  have le: "length_c c \<le> len" using assms(2) by simp
  have len: "length_c c = int (length (sizes c))"
    and m: "0 \<le> measuredOffsetIndex c" "measuredOffsetIndex c \<le> max (length_c c - 1) 0"
    using assms(1)[unfolded well_formed_iff] by blast+
  have c': "c' = fst (updateCacheLength c len False)"
    using assms(3) by simp
  have "0 \<le> len" using len assms(2) by simp
  then have "cached_ok c \<longrightarrow> cached_ok c'"
    using updateCacheLength_cached_ok[OF assms(1), of len False] c' by simp
  moreover have "min (measuredOffsetIndex c) (max 0 (len - 1)) = measuredOffsetIndex c"
    using m assms(2) by simp
  ultimately show ?thesis
    using len assms(2) by (simp add: c' updateCacheLength_grow[OF assms(1) le])
qed

theorem updateCacheLength_tail_growth_witness:
  "well_formed \<lparr>defaultItemSize = 10, length_c = 3, sizes = [UNCACHED, 25, UNCACHED],
       measuredOffsetIndex = 2, offsets = [0, 10, 35]\<rparr> \<and>
   updateCacheLength \<lparr>defaultItemSize = 10, length_c = 3, sizes = [UNCACHED, 25, UNCACHED],
       measuredOffsetIndex = 2, offsets = [0, 10, 35]\<rparr> 5 False =
     (\<lparr>defaultItemSize = 10, length_c = 5,
       sizes = [UNCACHED, 25, UNCACHED, UNCACHED, UNCACHED],
       measuredOffsetIndex = 2, offsets = [0, 10, 35, UNCACHED, UNCACHED]\<rparr>, 20, False) \<and>
   cached_ok \<lparr>defaultItemSize = 10, length_c = 5,
       sizes = [UNCACHED, 25, UNCACHED, UNCACHED, UNCACHED],
       measuredOffsetIndex = 2, offsets = [0, 10, 35, UNCACHED, UNCACHED]\<rparr>"
proof -
  let ?c = "\<lparr>defaultItemSize = 10, length_c = 3, sizes = [UNCACHED, 25, UNCACHED],
       measuredOffsetIndex = 2, offsets = [0, 10, 35]\<rparr>"
  let ?c' = "\<lparr>defaultItemSize = 10, length_c = 5,
       sizes = [UNCACHED, 25, UNCACHED, UNCACHED, UNCACHED],
       measuredOffsetIndex = 2, offsets = [0, 10, 35, UNCACHED, UNCACHED]\<rparr>"
  have h: "well_formed ?c" "length_c ?c < 5" by code_simp+
  have u: "updateCacheLength ?c 5 False = (?c', 20, False)" by code_simp
  have ok: "cached_ok ?c" by code_simp
  from updateCacheLength_tail_growth[OF h u] ok have "cached_ok ?c'" by blast
  with h(1) u show ?thesis by simp
qed

end
